theory Spec2Isabelle
  imports Complex_Main "HOL-Library.Char_ord" "HOL-Library.List_Lexorder"
    "HOL-Library.Product_Lexorder" "HOL-Library.Sublist"
begin

section \<open>Python strings\<close>

text \<open>
  A Python \<open>str\<close> is a sequence of code points; the model is \<^typ>\<open>string\<close>, whose
  characters are the code points 0 to 255 (Latin-1). Texts with code points above 255 are
  outside the model. The character classes below are Python's own on that range:
  \<open>str.isspace\<close> (which is also the \<open>\s\<close> of \<open>re\<close> on \<open>str\<close> patterns),
  \<open>str.lower\<close>, and the word characters \<open>\w\<close> that decide \<open>\b\<close>.
\<close>

definition is_space :: "char \<Rightarrow> bool" where
  "is_space c = (let n = (of_char c :: nat) in
     (9 \<le> n \<and> n \<le> 13) \<or> (28 \<le> n \<and> n \<le> 32) \<or> n = 133 \<or> n = 160)"

definition lower_char :: "char \<Rightarrow> char" where
  "lower_char c = (let n = (of_char c :: nat) in
     if (65 \<le> n \<and> n \<le> 90) \<or> (192 \<le> n \<and> n \<le> 222 \<and> n \<noteq> 215)
     then char_of (n + 32) else c)"

definition lower :: "string \<Rightarrow> string" where
  "lower s = map lower_char s"

definition is_word_char :: "char \<Rightarrow> bool" where
  "is_word_char c = (let n = (of_char c :: nat) in
     (48 \<le> n \<and> n \<le> 57) \<or> (65 \<le> n \<and> n \<le> 90) \<or> n = 95 \<or> (97 \<le> n \<and> n \<le> 122)
     \<or> n = 170 \<or> n = 178 \<or> n = 179 \<or> n = 181 \<or> n = 185 \<or> n = 186
     \<or> (188 \<le> n \<and> n \<le> 190) \<or> (192 \<le> n \<and> n \<le> 214) \<or> (216 \<le> n \<and> n \<le> 246)
     \<or> 248 \<le> n)"

text \<open>\<open>s.startswith(p)\<close>, \<open>s.endswith(p)\<close> and \<open>p in s\<close>.\<close>

definition startswith :: "string \<Rightarrow> string \<Rightarrow> bool" where
  "startswith s p = (take (length p) s = p)"

definition endswith :: "string \<Rightarrow> string \<Rightarrow> bool" where
  "endswith s p = (length p \<le> length s \<and> drop (length s - length p) s = p)"

fun contains :: "string \<Rightarrow> string \<Rightarrow> bool" where
  "contains [] p = (p = [])"
| "contains (c # cs) p = (startswith (c # cs) p \<or> contains cs p)"

subsection \<open>Splitting, stripping, joining\<close>

definition strip_chars :: "(char \<Rightarrow> bool) \<Rightarrow> string \<Rightarrow> string" where
  "strip_chars P s = rev (dropWhile P (rev (dropWhile P s)))"

definition strip :: "string \<Rightarrow> string" where
  "strip s = strip_chars is_space s"

fun split_on :: "char \<Rightarrow> string \<Rightarrow> string list" where
  "split_on sep [] = [[]]"
| "split_on sep (c # cs) =
     (if c = sep then [] # split_on sep cs
      else (case split_on sep cs of [] \<Rightarrow> [[c]] | x # xs \<Rightarrow> (c # x) # xs))"

lemma dropWhile_shorter:
  "xs \<noteq> [] \<Longrightarrow> P (hd xs) \<Longrightarrow> length (dropWhile P xs) < length xs"
  by (cases xs) (auto intro: le_imp_less_Suc length_dropWhile_le)

lemma hd_dropWhile_not: "dropWhile P xs \<noteq> [] \<Longrightarrow> \<not> P (hd (dropWhile P xs))"
  by (simp add: hd_dropWhile)

function split_ws :: "string \<Rightarrow> string list" where
  "split_ws s =
     (let s' = dropWhile is_space s in
      if s' = [] then []
      else takeWhile (\<lambda>c. \<not> is_space c) s' # split_ws (dropWhile (\<lambda>c. \<not> is_space c) s'))"
  by pat_completeness auto
termination
proof (relation "measure length", goal_cases)
  case 1
  show ?case by simp
next
  case (2 s s')
  then have "length (dropWhile (\<lambda>c. \<not> is_space c) s') < length s'"
    by (intro dropWhile_shorter) (auto simp: hd_dropWhile)
  also have "length s' \<le> length s"
    using 2 by (simp add: length_dropWhile_le)
  finally show ?case by simp
qed

declare split_ws.simps [simp del]

fun join :: "string \<Rightarrow> string list \<Rightarrow> string" where
  "join sep [] = []"
| "join sep [x] = x"
| "join sep (x # y # ys) = x @ sep @ join sep (y # ys)"

section \<open>fix\_images.py\<close>

subsection \<open>pathlib\<close>

definition path_name :: "string \<Rightarrow> string" where
  "path_name p =
     (case rev (filter (\<lambda>x. x \<noteq> [] \<and> x \<noteq> ''.'') (split_on CHR ''/'' p)) of
        [] \<Rightarrow> []
      | x # _ \<Rightarrow> x)"

definition rfind :: "string \<Rightarrow> char \<Rightarrow> nat option" where
  "rfind s c =
     (if c \<in> set s then Some (length s - 1 - length (takeWhile (\<lambda>d. d \<noteq> c) (rev s)))
      else None)"

definition path_suffix :: "string \<Rightarrow> string" where
  "path_suffix p =
     (let name = path_name p in
      case rfind name CHR ''.'' of
        None \<Rightarrow> []
      | Some i \<Rightarrow> if 0 < i \<and> i + 1 < length name then drop i name else [])"

definition path_stem :: "string \<Rightarrow> string" where
  "path_stem p =
     (let name = path_name p in
      case rfind name CHR ''.'' of
        None \<Rightarrow> name
      | Some i \<Rightarrow> if 0 < i \<and> i + 1 < length name then take i name else name)"

subsection \<open>slug\<close>

definition VALID_EXTS :: "string list" where
  "VALID_EXTS = [''.jpg'', ''.jpeg'', ''.png'', ''.webp'', ''.gif'', ''.svg'', ''.avif'']"

definition space_or_underscore :: "char \<Rightarrow> bool" where
  "space_or_underscore c = (is_space c \<or> c = CHR ''_'')"

function sub_space_runs :: "string \<Rightarrow> string" where
  "sub_space_runs [] = []"
| "sub_space_runs (c # cs) =
     (if space_or_underscore c
      then CHR ''-'' # sub_space_runs (dropWhile space_or_underscore cs)
      else c # sub_space_runs cs)"
  by pat_completeness auto
termination
  by (relation "measure length") (auto intro: le_imp_less_Suc length_dropWhile_le)

definition slug_char :: "char \<Rightarrow> bool" where
  "slug_char c = (let n = (of_char c :: nat) in
     (97 \<le> n \<and> n \<le> 122) \<or> (48 \<le> n \<and> n \<le> 57) \<or> c = CHR ''-'')"

function sub_hyphen_runs :: "string \<Rightarrow> string" where
  "sub_hyphen_runs [] = []"
| "sub_hyphen_runs (c # cs) =
     (if c = CHR ''-'' \<and> cs \<noteq> [] \<and> hd cs = CHR ''-''
      then CHR ''-'' # sub_hyphen_runs (dropWhile (\<lambda>d. d = CHR ''-'') cs)
      else c # sub_hyphen_runs cs)"
  by pat_completeness auto
termination
  by (relation "measure length") (auto intro: le_imp_less_Suc length_dropWhile_le)

definition slug :: "string \<Rightarrow> string" where
  "slug s0 =
     (let s = lower s0;
          s = sub_space_runs s;
          s = filter slug_char s;
          s = strip_chars (\<lambda>c. c = CHR ''-'') (sub_hyphen_runs s)
      in s)"

subsection \<open>catalog\<close>

definition setdefault :: "(string \<times> string) list \<Rightarrow> string \<Rightarrow> string \<Rightarrow> (string \<times> string) list" where
  "setdefault d k v = (if map_of d k = None then d @ [(k, v)] else d)"

definition build_catalog :: "string list \<Rightarrow> string list \<times> string set \<times> (string \<times> string) list" where
  "build_catalog paths =
     (let files = filter (\<lambda>f. lower (path_suffix f) \<in> set VALID_EXTS) paths;
          basenames = set (map path_name files);
          slug_map = fold (\<lambda>f d. setdefault d (slug (path_stem f)) (path_name f)) files []
      in (files, basenames, slug_map))"

subsection \<open>truncate\<close>

definition EXT_ALTS :: "string list" where
  "EXT_ALTS = [''jpg'', ''jpeg'', ''png'', ''webp'', ''gif'', ''svg'', ''avif'']"

definition at_word_end :: "string \<Rightarrow> bool" where
  "at_word_end rest = (case rest of [] \<Rightarrow> True | c # _ \<Rightarrow> \<not> is_word_char c)"

definition match_first_ext :: "string \<Rightarrow> nat option" where
  "match_first_ext s =
     (case s of
        [] \<Rightarrow> None
      | c # cs \<Rightarrow>
          if c = CHR ''.'' then
            map_option (\<lambda>e. Suc (length e))
              (find (\<lambda>e. lower (take (length e) cs) = e \<and> at_word_end (drop (length e) cs)) EXT_ALTS)
          else None)"

fun search_first_ext :: "string \<Rightarrow> nat option" where
  "search_first_ext [] = None"
| "search_first_ext (c # cs) =
     (case match_first_ext (c # cs) of
        Some n \<Rightarrow> Some n
      | None \<Rightarrow> map_option Suc (search_first_ext cs))"

definition truncate_after_first_ext :: "string \<Rightarrow> string option" where
  "truncate_after_first_ext name = map_option (\<lambda>e. take e name) (search_first_ext name)"

definition normalize_url :: "string \<Rightarrow> bool \<Rightarrow> string" where
  "normalize_url url0 make_relative =
     (let url = takeWhile (\<lambda>c. c \<noteq> CHR ''#'') (takeWhile (\<lambda>c. c \<noteq> CHR ''?'') url0)
      in if make_relative \<and> startswith url ''/'' then drop 1 url else url)"

subsection \<open>difflib\<close>

definition b2j :: "string \<Rightarrow> char \<Rightarrow> nat list" where
  "b2j b elt =
     (let n = length b; idxs = filter (\<lambda>j. b ! j = elt) [0..<n] in
      if n \<ge> 200 \<and> length idxs > n div 100 + 1 then [] else idxs)"

type_synonym flm_state = "(nat \<rightharpoonup> nat) \<times> nat \<times> nat \<times> nat"

definition prev_len :: "(nat \<rightharpoonup> nat) \<Rightarrow> nat \<Rightarrow> nat" where
  "prev_len j2len j = (if j = 0 then 0 else case j2len (j - 1) of None \<Rightarrow> 0 | Some v \<Rightarrow> v)"

fun flm_inner :: "(nat \<rightharpoonup> nat) \<Rightarrow> nat \<Rightarrow> nat \<Rightarrow> nat \<Rightarrow> nat list \<Rightarrow> flm_state \<Rightarrow> flm_state" where
  "flm_inner j2len i blo bhi [] st = st"
| "flm_inner j2len i blo bhi (j # js) (newj2len, besti, bestj, bestsize) =
     (if j < blo then flm_inner j2len i blo bhi js (newj2len, besti, bestj, bestsize)
      else if j \<ge> bhi then (newj2len, besti, bestj, bestsize)
      else
        (let k = prev_len j2len j + 1;
             newj2len' = newj2len(j \<mapsto> k)
         in if k > bestsize
            then flm_inner j2len i blo bhi js (newj2len', i + 1 - k, j + 1 - k, k)
            else flm_inner j2len i blo bhi js (newj2len', besti, bestj, bestsize)))"

fun flm_outer :: "string \<Rightarrow> string \<Rightarrow> nat \<Rightarrow> nat \<Rightarrow> nat list \<Rightarrow> flm_state \<Rightarrow> flm_state" where
  "flm_outer a b blo bhi [] st = st"
| "flm_outer a b blo bhi (i # is) (j2len, besti, bestj, bestsize) =
     flm_outer a b blo bhi is
       (flm_inner j2len i blo bhi (b2j b (a ! i)) (Map.empty, besti, bestj, bestsize))"

function extend_left :: "string \<Rightarrow> string \<Rightarrow> nat \<Rightarrow> nat \<Rightarrow> nat \<times> nat \<times> nat \<Rightarrow> nat \<times> nat \<times> nat" where
  "extend_left a b alo blo (besti, bestj, bestsize) =
     (if besti > alo \<and> bestj > blo \<and> a ! (besti - 1) = b ! (bestj - 1)
      then extend_left a b alo blo (besti - 1, bestj - 1, bestsize + 1)
      else (besti, bestj, bestsize))"
  by pat_completeness auto
termination
  by (relation "measure (\<lambda>(a, b, alo, blo, besti, bestj, bestsize). besti)") auto

function extend_right :: "string \<Rightarrow> string \<Rightarrow> nat \<Rightarrow> nat \<Rightarrow> nat \<times> nat \<times> nat \<Rightarrow> nat \<times> nat \<times> nat" where
  "extend_right a b ahi bhi (besti, bestj, bestsize) =
     (if besti + bestsize < ahi \<and> bestj + bestsize < bhi
         \<and> a ! (besti + bestsize) = b ! (bestj + bestsize)
      then extend_right a b ahi bhi (besti, bestj, bestsize + 1)
      else (besti, bestj, bestsize))"
  by pat_completeness auto
termination
  by (relation "measure (\<lambda>(a, b, ahi, bhi, besti, bestj, bestsize). ahi - (besti + bestsize))") auto

declare extend_left.simps [simp del] extend_right.simps [simp del]

definition find_longest_match :: "string \<Rightarrow> string \<Rightarrow> nat \<Rightarrow> nat \<Rightarrow> nat \<Rightarrow> nat \<Rightarrow> nat \<times> nat \<times> nat" where
  "find_longest_match a b alo ahi blo bhi =
     (case flm_outer a b blo bhi [alo..<ahi] (Map.empty, alo, blo, 0) of
        (j2len, best) \<Rightarrow> extend_right a b ahi bhi (extend_left a b alo blo best))"


definition flm_inv :: "nat \<Rightarrow> nat \<Rightarrow> nat \<Rightarrow> flm_state \<Rightarrow> bool" where
  "flm_inv alo ahi bound st =
     (case st of (j2len, besti, bestj, bestsize) \<Rightarrow>
        (\<forall>j v. j2len j = Some v \<longrightarrow> v \<le> bound) \<and> alo \<le> besti \<and>
        (besti + bestsize \<le> ahi \<or> (bestsize = 0 \<and> besti = alo)))"

lemma flm_inner_inv:
  assumes "alo \<le> i" "i < ahi" "\<forall>j v. j2len j = Some v \<longrightarrow> v \<le> i - alo"
    and "flm_inv alo ahi (i + 1 - alo) st"
  shows "flm_inv alo ahi (i + 1 - alo) (flm_inner j2len i blo bhi js st)"
  using assms(4)
proof (induction js arbitrary: st)
  case Nil
  then show ?case by simp
next
  case (Cons j js)
  obtain n bi bj bs where st: "st = (n, bi, bj, bs)" by (cases st) auto
  define k where "k = prev_len j2len j + 1"
  have "prev_len j2len j \<le> i - alo"
    using assms(3) by (auto simp: prev_len_def split: option.splits)
  then have kb: "k \<le> i + 1 - alo"
    using assms(1) by (simp add: k_def)
  have k1: "1 \<le> k" by (simp add: k_def)
  have new: "flm_inv alo ahi (i + 1 - alo) (n(j \<mapsto> k), i + 1 - k, j + 1 - k, k)"
    using Cons.prems kb k1 assms(1,2) by (auto simp: flm_inv_def st)
  have keep: "flm_inv alo ahi (i + 1 - alo) (n(j \<mapsto> k), bi, bj, bs)"
    using Cons.prems kb by (auto simp: flm_inv_def st)
  show ?case
    using Cons.IH [OF new] Cons.IH [OF keep] Cons.IH [OF Cons.prems] Cons.prems
    by (simp add: st k_def [symmetric] Let_def del: One_nat_def)
qed

lemma flm_inv_best:
  "flm_inv alo ahi bound (n, bi, bj, bs) \<Longrightarrow> alo \<le> bi \<and> (bi + bs \<le> ahi \<or> (bs = 0 \<and> bi = alo))"
  by (simp add: flm_inv_def)

lemma flm_outer_inv:
  assumes "is = [m..<ahi]" "alo \<le> m" "flm_inv alo ahi (m - alo) st"
  shows "\<exists>bound. flm_inv alo ahi bound (flm_outer a b blo bhi is st)"
  using assms
proof (induction "is" arbitrary: m st)
  case Nil
  then show ?case by auto
next
  case (Cons i "is")
  from Cons.prems(1) [symmetric]
  have im: "i = m" and lt: "m < ahi" and rest: "is = [Suc m..<ahi]"
    by (auto simp: upt_eq_Cons_conv)
  obtain n bi bj bs where st: "st = (n, bi, bj, bs)" by (cases st) auto
  have start: "flm_inv alo ahi (m + 1 - alo) (Map.empty, bi, bj, bs)"
    using Cons.prems(3) by (simp add: flm_inv_def st)
  have old: "\<forall>j v. n j = Some v \<longrightarrow> v \<le> m - alo"
    using Cons.prems(3) by (simp add: flm_inv_def st)
  have step: "flm_inv alo ahi (Suc m - alo)
      (flm_inner n m blo bhi (b2j b (a ! m)) (Map.empty, bi, bj, bs))"
    using flm_inner_inv [OF Cons.prems(2) lt old start] by simp
  have "alo \<le> Suc m" using Cons.prems(2) by simp
  from Cons.IH [OF rest this step] show ?case by (simp add: st im)
qed

lemma extend_left_inv:
  "alo \<le> besti \<Longrightarrow> besti + bestsize \<le> ahi \<or> (bestsize = 0 \<and> besti = alo) \<Longrightarrow>
   extend_left a b alo blo (besti, bestj, bestsize) = (i, j, k) \<Longrightarrow>
   alo \<le> i \<and> (i + k \<le> ahi \<or> (k = 0 \<and> i = alo))"
proof (induction a b alo blo "(besti, bestj, bestsize)" arbitrary: besti bestj bestsize
    rule: extend_left.induct)
  case (1 a b alo blo besti bestj bestsize)
  show ?case
  proof (cases "besti > alo \<and> bestj > blo \<and> a ! (besti - 1) = b ! (bestj - 1)")
    case True
    then have "extend_left a b alo blo (besti - 1, bestj - 1, bestsize + 1) = (i, j, k)"
      using "1.prems"(3) by (subst (asm) extend_left.simps) simp
    moreover have "alo \<le> besti - 1" using True by linarith
    moreover have "besti - 1 + (bestsize + 1) \<le> ahi" using True "1.prems"(2) by linarith
    ultimately show ?thesis using "1.hyps" True by blast
  next
    case False
    then have "(besti, bestj, bestsize) = (i, j, k)"
      using "1.prems"(3) by (subst (asm) extend_left.simps) (simp only: False if_False)
    then show ?thesis using "1.prems"(1,2) by auto
  qed
qed

lemma extend_right_inv:
  "alo \<le> besti \<Longrightarrow> besti + bestsize \<le> ahi \<or> (bestsize = 0 \<and> besti = alo) \<Longrightarrow>
   extend_right a b ahi bhi (besti, bestj, bestsize) = (i, j, k) \<Longrightarrow>
   alo \<le> i \<and> (i + k \<le> ahi \<or> (k = 0 \<and> i = alo))"
proof (induction a b ahi bhi "(besti, bestj, bestsize)" arbitrary: besti bestj bestsize
    rule: extend_right.induct)
  case (1 a b ahi bhi besti bestj bestsize)
  show ?case
  proof (cases "besti + bestsize < ahi \<and> bestj + bestsize < bhi
         \<and> a ! (besti + bestsize) = b ! (bestj + bestsize)")
    case True
    then have "extend_right a b ahi bhi (besti, bestj, bestsize + 1) = (i, j, k)"
      using "1.prems"(3) by (subst (asm) extend_right.simps) simp
    moreover have "besti + (bestsize + 1) \<le> ahi" using True by simp
    ultimately show ?thesis using "1.hyps" True "1.prems"(1) by blast
  next
    case False
    then have "(besti, bestj, bestsize) = (i, j, k)"
      using "1.prems"(3) by (subst (asm) extend_right.simps) (simp only: False if_False)
    then show ?thesis using "1.prems"(1,2) by auto
  qed
qed

lemma find_longest_match_bounds:
  assumes "find_longest_match a b alo ahi blo bhi = (i, j, k)"
  shows "alo \<le> i \<and> (i + k \<le> ahi \<or> (k = 0 \<and> i = alo))"
proof -
  obtain n bi bj bs where r: "flm_outer a b blo bhi [alo..<ahi] (Map.empty, alo, blo, 0) = (n, bi, bj, bs)"
    by (cases "flm_outer a b blo bhi [alo..<ahi] (Map.empty, alo, blo, 0)") blast
  have "flm_inv alo ahi (alo - alo) (Map.empty, alo, blo, 0)"
    by (simp add: flm_inv_def)
  from flm_outer_inv [where a = a and b = b and blo = blo and bhi = bhi, OF refl le_refl this]
  obtain bound where "flm_inv alo ahi bound (n, bi, bj, bs)"
    unfolding r by blast
  from flm_inv_best [OF this]
  have inv: "alo \<le> bi" "bi + bs \<le> ahi \<or> (bs = 0 \<and> bi = alo)"
    by blast+
  obtain i' j' k' where l: "extend_left a b alo blo (bi, bj, bs) = (i', j', k')"
    by (cases "extend_left a b alo blo (bi, bj, bs)") blast
  from extend_left_inv [OF inv l]
  have inv': "alo \<le> i'" "i' + k' \<le> ahi \<or> (k' = 0 \<and> i' = alo)" by blast+
  have "extend_right a b ahi bhi (i', j', k') = (i, j, k)"
    using assms by (simp add: find_longest_match_def r l)
  from extend_right_inv [OF inv' this] show ?thesis .
qed

subsection \<open>matching blocks\<close>

type_synonym block = "nat \<times> nat \<times> nat"

definition queue_weight :: "(nat \<times> nat \<times> nat \<times> nat) list \<Rightarrow> nat" where
  "queue_weight q = sum_list (map (\<lambda>(alo, ahi, blo, bhi). 2 * (ahi - alo) + 1) q)"

lemma queue_weight_simps:
  "queue_weight [] = 0"
  "queue_weight ((alo, ahi, blo, bhi) # q) = 2 * (ahi - alo) + 1 + queue_weight q"
  by (simp_all add: queue_weight_def)

function matching_blocks_loop ::
  "string \<Rightarrow> string \<Rightarrow> (nat \<times> nat \<times> nat \<times> nat) list \<Rightarrow> block list \<Rightarrow> block list" where
  "matching_blocks_loop a b [] matching_blocks = matching_blocks"
| "matching_blocks_loop a b ((alo, ahi, blo, bhi) # queue) matching_blocks =
     (case find_longest_match a b alo ahi blo bhi of
        (i, j, k) \<Rightarrow>
          if k \<noteq> 0 then
            matching_blocks_loop a b
              ((if i + k < ahi \<and> j + k < bhi then [(i + k, ahi, j + k, bhi)] else [])
               @ (if alo < i \<and> blo < j then [(alo, i, blo, j)] else []) @ queue)
              (matching_blocks @ [(i, j, k)])
          else matching_blocks_loop a b queue matching_blocks)"
  by pat_completeness auto
termination
proof (relation "measure (\<lambda>(a, b, q, m). queue_weight q)", goal_cases)
  case 1
  show ?case by simp
next
  case (2 a b alo ahi blo bhi queue matching_blocks x y xa ya)
  from 2(1,2) have "find_longest_match a b alo ahi blo bhi = (x, xa, ya)" by simp
  from find_longest_match_bounds [OF this] 2(3)
  have b: "alo \<le> x" "x + ya \<le> ahi" "0 < ya" by auto
  have w1: "2 * (ahi - (x + ya)) + 1 + (2 * (x - alo) + 1) < 2 * (ahi - alo) + 1"
    using b by linarith
  have w2: "2 * (x - alo) + 1 < 2 * (ahi - alo) + 1"
    using b by linarith
  have w3: "2 * (ahi - (x + ya)) + 1 < 2 * (ahi - alo) + 1"
    using b by linarith
  show ?case
    using w1 w2 w3 by (simp add: queue_weight_simps del: One_nat_def)
next
  case (3 a b alo ahi blo bhi queue matching_blocks x y xa ya)
  then show ?case by (simp add: queue_weight_simps)
qed

declare matching_blocks_loop.simps [simp del]

fun collapse :: "block list \<Rightarrow> block \<Rightarrow> block list \<Rightarrow> block list" where
  "collapse [] (i1, j1, k1) non_adjacent =
     (if k1 \<noteq> 0 then non_adjacent @ [(i1, j1, k1)] else non_adjacent)"
| "collapse ((i2, j2, k2) # rest) (i1, j1, k1) non_adjacent =
     (if i1 + k1 = i2 \<and> j1 + k1 = j2 then collapse rest (i1, j1, k1 + k2) non_adjacent
      else collapse rest (i2, j2, k2)
             (if k1 \<noteq> 0 then non_adjacent @ [(i1, j1, k1)] else non_adjacent))"

definition get_matching_blocks :: "string \<Rightarrow> string \<Rightarrow> block list" where
  "get_matching_blocks a b =
     (let la = length a; lb = length b;
          matching_blocks = sort (matching_blocks_loop a b [(0, la, 0, lb)] [])
      in collapse matching_blocks (0, 0, 0) [] @ [(la, lb, 0)])"

definition calculate_ratio :: "nat \<Rightarrow> nat \<Rightarrow> rat" where
  "calculate_ratio matches len = (if len \<noteq> 0 then 2 * of_nat matches / of_nat len else 1)"

definition ratio :: "string \<Rightarrow> string \<Rightarrow> rat" where
  "ratio a b =
     calculate_ratio (sum_list (map (\<lambda>(i, j, k). k) (get_matching_blocks a b)))
       (length a + length b)"

fun quick_ratio_loop :: "(char \<Rightarrow> int) \<Rightarrow> string \<Rightarrow> (char \<rightharpoonup> int) \<times> nat \<Rightarrow> (char \<rightharpoonup> int) \<times> nat" where
  "quick_ratio_loop fullbcount [] st = st"
| "quick_ratio_loop fullbcount (elt # rest) (avail, matches) =
     (let numb = (case avail elt of Some n \<Rightarrow> n | None \<Rightarrow> fullbcount elt)
      in quick_ratio_loop fullbcount rest
           (avail(elt \<mapsto> numb - 1), if numb > 0 then matches + 1 else matches))"

definition quick_ratio :: "string \<Rightarrow> string \<Rightarrow> rat" where
  "quick_ratio a b =
     calculate_ratio
       (snd (quick_ratio_loop (\<lambda>elt. int (count_list b elt)) a (Map.empty, 0)))
       (length a + length b)"

definition real_quick_ratio :: "string \<Rightarrow> string \<Rightarrow> rat" where
  "real_quick_ratio a b = calculate_ratio (min (length a) (length b)) (length a + length b)"

definition cutoff :: rat where
  "cutoff = 6 / 10"

definition nlargest1 :: "(rat \<times> string) list \<Rightarrow> (rat \<times> string) list" where
  "nlargest1 result =
     (case result of
        [] \<Rightarrow> []
      | r # rs \<Rightarrow> [foldl (\<lambda>best x. if x > best then x else best) r rs])"

definition close_enough :: "string \<Rightarrow> string \<Rightarrow> bool" where
  "close_enough x word =
     (real_quick_ratio x word \<ge> cutoff \<and> quick_ratio x word \<ge> cutoff \<and> ratio x word \<ge> cutoff)"

definition get_close_matches :: "string \<Rightarrow> string list \<Rightarrow> string list" where
  "get_close_matches word possibilities =
     (let result = map (\<lambda>x. (ratio x word, x)) (filter (\<lambda>x. close_enough x word) possibilities)
      in map snd (nlargest1 result))"

subsection \<open>maybe\_fix\_url and fix\_srcset\<close>

function remove_xresdefault :: "string \<Rightarrow> string" where
  "remove_xresdefault [] = []"
| "remove_xresdefault (c # cs) =
     (if startswith (c # cs) ''xresdefault''
      then remove_xresdefault (drop (length ''xresdefault'') (c # cs))
      else c # remove_xresdefault cs)"
  by pat_completeness auto
termination
  by (relation "measure length") auto

definition fuzzy_match ::
  "string \<Rightarrow> string \<Rightarrow> string set \<Rightarrow> (string \<times> string) list \<Rightarrow> string \<Rightarrow> string option" where
  "fuzzy_match nrm fname basenames slug_map images_web_root =
     (let s = slug (path_stem fname);
          s = remove_xresdefault s;
          cand = get_close_matches s (map fst slug_map)
      in case cand of
           c # _ \<Rightarrow>
             (case map_of slug_map c of
                Some name \<Rightarrow> Some (images_web_root @ name)
              | None \<Rightarrow> None)
         | [] \<Rightarrow>
             if nrm = fname \<and> fname \<in> basenames then Some (images_web_root @ fname)
             else None)"

definition maybe_fix_url ::
  "string \<Rightarrow> string set \<Rightarrow> (string \<times> string) list \<Rightarrow> string \<Rightarrow> bool \<Rightarrow> string option" where
  "maybe_fix_url url basenames slug_map images_web_root make_relative =
     (if startswith url ''http:'' \<or> startswith url ''https:'' \<or> startswith url ''data:''
         \<or> startswith url ''mailto:'' \<or> startswith url ''#''
      then None
      else
        (let nrm = normalize_url url make_relative;
             fname = path_name nrm
         in if fname \<in> basenames then
              (let new_url = images_web_root @ fname
               in if new_url \<noteq> url then Some new_url else None)
            else
              (case truncate_after_first_ext fname of
                 Some trunc \<Rightarrow>
                   if trunc \<noteq> [] \<and> trunc \<in> basenames then Some (images_web_root @ trunc)
                   else fuzzy_match nrm fname basenames slug_map images_web_root
               | None \<Rightarrow> fuzzy_match nrm fname basenames slug_map images_web_root)))"

definition or_else :: "string option \<Rightarrow> string \<Rightarrow> string" where
  "or_else new_url url = (case new_url of None \<Rightarrow> url | Some n \<Rightarrow> if n = [] then url else n)"

definition fix_srcset_part ::
  "string \<Rightarrow> string set \<Rightarrow> (string \<times> string) list \<Rightarrow> string \<Rightarrow> bool \<Rightarrow> string list" where
  "fix_srcset_part part basenames slug_map images_web_root make_relative =
     (if part = [] then []
      else
        (case split_ws part of
           [] \<Rightarrow> []
         | url # toks \<Rightarrow>
             (let rest = (if length (url # toks) > 1 then join '' '' toks else []);
                  new_url = maybe_fix_url url basenames slug_map images_web_root make_relative
              in [strip (or_else new_url url @ (if rest \<noteq> [] then '' '' @ rest else []))])))"

definition fix_srcset ::
  "string \<Rightarrow> string set \<Rightarrow> (string \<times> string) list \<Rightarrow> string \<Rightarrow> bool \<Rightarrow> string" where
  "fix_srcset val basenames slug_map images_web_root make_relative =
     (let parts = map strip (split_on CHR '','' val);
          out = concat (map (\<lambda>part.
                   fix_srcset_part part basenames slug_map images_web_root make_relative) parts)
      in join '', '' out)"

subsection \<open>The regular expressions\<close>

definition dquote :: char where
  "dquote = CHR 0x22"

definition squote :: char where
  "squote = CHR 0x27"

definition is_quote :: "char \<Rightarrow> bool" where
  "is_quote c = (c = squote \<or> c = dquote)"

record attr_match =
  am_group0 :: string
  am_attr :: string
  am_val :: string

definition match_attr_alt :: "string \<Rightarrow> string \<Rightarrow> (attr_match \<times> string) option" where
  "match_attr_alt alt s =
     (if lower (take (length alt) s) = alt then
        (case dropWhile is_space (drop (length alt) s) of
           [] \<Rightarrow> None
         | e # r2 \<Rightarrow>
             if e = CHR ''='' then
               (case dropWhile is_space r2 of
                  [] \<Rightarrow> None
                | q # r4 \<Rightarrow>
                    if is_quote q then
                      (let val = takeWhile (\<lambda>c. \<not> is_quote c) r4 in
                       case dropWhile (\<lambda>c. \<not> is_quote c) r4 of
                         [] \<Rightarrow> None
                       | q' # rest \<Rightarrow>
                           if val \<noteq> [] \<and> q' = q then
                             Some (\<lparr>am_group0 = take (length s - length rest) s,
                                     am_attr = take (length alt) s, am_val = val\<rparr>, rest)
                           else None)
                    else None)
             else None)
      else None)"

definition match_attr :: "string \<Rightarrow> (attr_match \<times> string) option" where
  "match_attr s =
     (case match_attr_alt ''src'' s of
        Some r \<Rightarrow> Some r
      | None \<Rightarrow>
          (case match_attr_alt ''srcset'' s of
             Some r \<Rightarrow> Some r
           | None \<Rightarrow> match_attr_alt ''href'' s))"

record css_match =
  cm_group0 :: string
  cm_val :: string

definition css_val_char :: "char \<Rightarrow> bool" where
  "css_val_char c = (\<not> is_quote c \<and> c \<noteq> CHR '')'')"

definition match_css :: "string \<Rightarrow> (css_match \<times> string) option" where
  "match_css s =
     (if lower (take 4 s) = ''url('' then
        (let ws = takeWhile is_space (drop 4 s);
             after = dropWhile is_space (drop 4 s)
         in case after of
              [] \<Rightarrow> None
            | c # r \<Rightarrow>
                if is_quote c then
                  (let val = takeWhile css_val_char r in
                   case dropWhile css_val_char r of
                     [] \<Rightarrow> None
                   | q' # r2 \<Rightarrow>
                       if val \<noteq> [] \<and> q' = c then
                         (case dropWhile is_space r2 of
                            [] \<Rightarrow> None
                          | p # rest \<Rightarrow>
                              if p = CHR '')'' then
                                Some (\<lparr>cm_group0 = take (length s - length rest) s, cm_val = val\<rparr>, rest)
                              else None)
                       else None)
                else
                  (let val = takeWhile css_val_char (c # r) in
                   if val \<noteq> [] then
                     (case dropWhile css_val_char (c # r) of
                        [] \<Rightarrow> None
                      | p # rest \<Rightarrow>
                          if p = CHR '')'' then
                            Some (\<lparr>cm_group0 = take (length s - length rest) s, cm_val = val\<rparr>, rest)
                          else None)
                   else if ws \<noteq> [] then
                     Some (\<lparr>cm_group0 = take (length s - length r) s, cm_val = [last ws]\<rparr>, r)
                   else None))
      else None)"

lemma length_dropWhile_Cons:
  "dropWhile P xs = y # ys \<Longrightarrow> length ys < length xs"
  by (metis length_dropWhile_le length_Cons less_eq_Suc_le)

lemma match_attr_alt_shorter:
  assumes "match_attr_alt alt s = Some (m, rest)"
  shows "length rest < length s"
proof -
  from assms obtain r2 q r4 q' where
    a: "dropWhile is_space (drop (length alt) s) = CHR ''='' # r2"
    and b: "dropWhile is_space r2 = q # r4"
    and c: "dropWhile (\<lambda>c. \<not> is_quote c) r4 = q' # rest"
    by (auto simp: match_attr_alt_def Let_def split: if_splits list.splits)
  have "length rest < length r4" using length_dropWhile_Cons [OF c] .
  also have "length r4 < length r2" using length_dropWhile_Cons [OF b] .
  also have "length r2 < length (drop (length alt) s)" using length_dropWhile_Cons [OF a] .
  also have "\<dots> \<le> length s" by simp
  finally show ?thesis .
qed

lemma match_attr_shorter:
  "match_attr s = Some (m, rest) \<Longrightarrow> length rest < length s"
  by (auto simp: match_attr_def split: option.splits dest: match_attr_alt_shorter)

lemma match_css_shorter:
  assumes "match_css s = Some (m, rest)"
  shows "length rest < length s"
proof -
  have d: "length (dropWhile is_space (drop 4 s)) \<le> length s"
    by (rule le_trans [OF length_dropWhile_le]) simp
  from assms consider
    (quoted) c r q' r2 p where "dropWhile is_space (drop 4 s) = c # r"
      "dropWhile css_val_char r = q' # r2" "dropWhile is_space r2 = p # rest"
    | (plain) c r p where "dropWhile is_space (drop 4 s) = c # r"
      "dropWhile css_val_char (c # r) = p # rest"
    | (blank) c where "dropWhile is_space (drop 4 s) = c # rest"
    by (auto simp: match_css_def Let_def split: if_splits list.splits)
  then show ?thesis
  proof cases
    case quoted
    have "length rest < length r2" using length_dropWhile_Cons [OF quoted(3)] .
    also have "length r2 < length r" using length_dropWhile_Cons [OF quoted(2)] .
    also have "length r < length (dropWhile is_space (drop 4 s))" by (simp add: quoted(1))
    finally show ?thesis using d by simp
  next
    case plain
    have "length rest < length (c # r)" using length_dropWhile_Cons [OF plain(2)] .
    then show ?thesis using d by (simp add: plain(1))
  next
    case blank
    then show ?thesis using d by simp
  qed
qed

text \<open>re.sub with a callback that threads the change counter.\<close>

function sub_attr :: "(attr_match \<Rightarrow> nat \<Rightarrow> string \<times> nat) \<Rightarrow> string \<Rightarrow> nat \<Rightarrow> string \<times> nat" where
  "sub_attr repl [] changed = ([], changed)"
| "sub_attr repl (c # cs) changed =
     (case match_attr (c # cs) of
        Some (m, rest) \<Rightarrow>
          (case repl m changed of
             (r, changed') \<Rightarrow>
               (case sub_attr repl rest changed' of
                  (out, changed'') \<Rightarrow> (r @ out, changed'')))
      | None \<Rightarrow>
          (case sub_attr repl cs changed of
             (out, changed') \<Rightarrow> (c # out, changed')))"
  by pat_completeness auto
termination
  by (relation "measure (\<lambda>(repl, s, changed). length s)")
    (auto dest: match_attr_shorter)

function sub_css :: "(css_match \<Rightarrow> nat \<Rightarrow> string \<times> nat) \<Rightarrow> string \<Rightarrow> nat \<Rightarrow> string \<times> nat" where
  "sub_css repl [] changed = ([], changed)"
| "sub_css repl (c # cs) changed =
     (case match_css (c # cs) of
        Some (m, rest) \<Rightarrow>
          (case repl m changed of
             (r, changed') \<Rightarrow>
               (case sub_css repl rest changed' of
                  (out, changed'') \<Rightarrow> (r @ out, changed'')))
      | None \<Rightarrow>
          (case sub_css repl cs changed of
             (out, changed') \<Rightarrow> (c # out, changed')))"
  by pat_completeness auto
termination
  by (relation "measure (\<lambda>(repl, s, changed). length s)")
    (auto dest: match_css_shorter)

declare sub_attr.simps [simp del] sub_css.simps [simp del]


subsection \<open>process\_html\<close>

definition images_web_root :: "bool \<Rightarrow> string" where
  "images_web_root make_relative = (if make_relative then ''images/'' else ''/images/'')"

definition eligible :: "string \<Rightarrow> bool" where
  "eligible val = (contains val ''/images/'' \<or> list_ex (endswith (lower val)) VALID_EXTS)"

definition new_val_attr ::
  "bool \<Rightarrow> string set \<Rightarrow> (string \<times> string) list \<Rightarrow> attr_match \<Rightarrow> string option" where
  "new_val_attr make_relative basenames slug_map m =
     (if lower (am_attr m) = ''srcset'' then
        Some (fix_srcset (am_val m) basenames slug_map (images_web_root make_relative) make_relative)
      else if eligible (am_val m) then
        maybe_fix_url (am_val m) basenames slug_map (images_web_root make_relative) make_relative
      else None)"

definition is_change :: "string option \<Rightarrow> string \<Rightarrow> bool" where
  "is_change new_val val = (case new_val of None \<Rightarrow> False | Some n \<Rightarrow> n \<noteq> [] \<and> n \<noteq> val)"

definition quote_of :: "attr_match \<Rightarrow> char" where
  "quote_of m = (if dquote \<in> set (am_group0 m) then dquote else squote)"

definition repl_attr_safe ::
  "bool \<Rightarrow> string set \<Rightarrow> (string \<times> string) list \<Rightarrow> attr_match \<Rightarrow> nat \<Rightarrow> string \<times> nat" where
  "repl_attr_safe make_relative basenames slug_map m changed =
     (let attr = am_attr m;
          quote = quote_of m;
          val = am_val m;
          new_val = new_val_attr make_relative basenames slug_map m
      in case new_val of
           None \<Rightarrow> (am_group0 m, changed)
         | Some n \<Rightarrow>
             if n \<noteq> [] \<and> n \<noteq> val then (attr @ ''='' @ [quote] @ n @ [quote], changed + 1)
             else (am_group0 m, changed))"

definition new_val_css ::
  "bool \<Rightarrow> string set \<Rightarrow> (string \<times> string) list \<Rightarrow> css_match \<Rightarrow> string option" where
  "new_val_css make_relative basenames slug_map m =
     (if eligible (cm_val m) then
        maybe_fix_url (cm_val m) basenames slug_map (images_web_root make_relative) make_relative
      else None)"

definition repl_css ::
  "bool \<Rightarrow> string set \<Rightarrow> (string \<times> string) list \<Rightarrow> css_match \<Rightarrow> nat \<Rightarrow> string \<times> nat" where
  "repl_css make_relative basenames slug_map m changed =
     (let val = cm_val m;
          new_val = new_val_css make_relative basenames slug_map m
      in case new_val of
           None \<Rightarrow> (cm_group0 m, changed)
         | Some n \<Rightarrow>
             if n \<noteq> [] \<and> n \<noteq> val then (''url('' @ [dquote] @ n @ [dquote] @ '')'', changed + 1)
             else (cm_group0 m, changed))"

definition process_html_text ::
  "bool \<Rightarrow> string set \<Rightarrow> (string \<times> string) list \<Rightarrow> string \<Rightarrow> string \<times> nat" where
  "process_html_text make_relative basenames slug_map text =
     (case sub_attr (repl_attr_safe make_relative basenames slug_map) text 0 of
        (new_text, changed) \<Rightarrow>
          sub_css (repl_css make_relative basenames slug_map) new_text changed)"




subsection \<open>The matches re.sub visits\<close>

text \<open>
  \<open>finditer_attr\<close> and \<open>finditer_css\<close> list the matches in the order \<open>re.sub\<close> hands them
  to its callback; \<open>attr_rewritten\<close> and \<open>css_rewritten\<close> are the callbacks' test
  \<open>new_val and new_val != val\<close>.
\<close>

function finditer_attr :: "string \<Rightarrow> attr_match list" where
  "finditer_attr [] = []"
| "finditer_attr (c # cs) =
     (case match_attr (c # cs) of
        Some (m, rest) \<Rightarrow> m # finditer_attr rest
      | None \<Rightarrow> finditer_attr cs)"
  by pat_completeness auto
termination
  by (relation "measure length") (auto dest: match_attr_shorter)

function finditer_css :: "string \<Rightarrow> css_match list" where
  "finditer_css [] = []"
| "finditer_css (c # cs) =
     (case match_css (c # cs) of
        Some (m, rest) \<Rightarrow> m # finditer_css rest
      | None \<Rightarrow> finditer_css cs)"
  by pat_completeness auto
termination
  by (relation "measure length") (auto dest: match_css_shorter)

declare finditer_attr.simps [simp del] finditer_css.simps [simp del]

definition attr_rewritten ::
  "bool \<Rightarrow> string set \<Rightarrow> (string \<times> string) list \<Rightarrow> attr_match \<Rightarrow> bool" where
  "attr_rewritten make_relative basenames slug_map m =
     is_change (new_val_attr make_relative basenames slug_map m) (am_val m)"

definition css_rewritten ::
  "bool \<Rightarrow> string set \<Rightarrow> (string \<times> string) list \<Rightarrow> css_match \<Rightarrow> bool" where
  "css_rewritten make_relative basenames slug_map m =
     is_change (new_val_css make_relative basenames slug_map m) (cm_val m)"

section \<open>tools\_wire\_ethicops\_email.py\<close>



















section \<open>Properties of the model\<close>

lemma fuzzy_match_Some:
  "fuzzy_match nrm fname basenames slug_map web_root = Some v \<Longrightarrow> \<exists>name. v = web_root @ name"
  by (auto simp: fuzzy_match_def Let_def split: list.splits option.splits if_splits)

lemma maybe_fix_url_Some:
  "maybe_fix_url url basenames slug_map web_root make_relative = Some v \<Longrightarrow> \<exists>name. v = web_root @ name"
  by (auto simp: maybe_fix_url_def Let_def split: if_splits option.splits dest: fuzzy_match_Some)

lemma match_attr_alt_attr:
  "match_attr_alt alt s = Some (m, rest) \<Longrightarrow> lower (am_attr m) = alt"
  by (auto simp: match_attr_alt_def Let_def split: if_splits list.splits)

lemma match_attr_attr:
  "match_attr s = Some (m, rest) \<Longrightarrow> lower (am_attr m) \<in> {''src'', ''srcset'', ''href''}"
  by (auto simp: match_attr_def split: option.splits dest: match_attr_alt_attr)

lemma images_web_root_nonempty: "images_web_root make_relative @ name \<noteq> []"
  by (simp add: images_web_root_def)

lemma maybe_fix_url_nonempty:
  "maybe_fix_url url basenames slug_map (images_web_root make_relative) make_relative \<noteq> Some []"
  using maybe_fix_url_Some [of url basenames slug_map "images_web_root make_relative" make_relative "[]"]
  by (auto simp: images_web_root_def)

lemma foldl_best_mem:
  fixes r :: "'a :: linorder"
  shows "foldl (\<lambda>best x. if x > best then x else best) r rs \<in> set (r # rs)"
  by (induction rs arbitrary: r) auto

lemma foldl_best_ge:
  fixes r :: "'a :: linorder"
  shows "\<forall>x \<in> set (r # rs). x \<le> foldl (\<lambda>best x. if x > best then x else best) r rs"
proof (induction rs arbitrary: r)
  case Nil
  then show ?case by simp
next
  case (Cons y rs)
  show ?case
  proof (cases "y > r")
    case True
    then show ?thesis
      using Cons.IH [of y] by (auto intro: less_imp_le order_trans)
  next
    case False
    then show ?thesis
      using Cons.IH [of r] by (auto intro: order_trans)
  qed
qed

lemma nlargest1_cases:
  "nlargest1 result = [] \<and> result = [] \<or>
   (\<exists>r. nlargest1 result = [r] \<and> r \<in> set result \<and> (\<forall>x \<in> set result. x \<le> r))"
proof (cases result)
  case Nil
  then show ?thesis by (simp add: nlargest1_def)
next
  case (Cons r rs)
  then show ?thesis
    using foldl_best_mem [of r rs] foldl_best_ge [of r rs]
    by (auto simp: nlargest1_def)
qed

lemma get_close_matches_Nil:
  "get_close_matches word possibilities = [] \<longleftrightarrow> (\<forall>x \<in> set possibilities. \<not> close_enough x word)"
  using nlargest1_cases [of "map (\<lambda>x. (ratio x word, x)) (filter (\<lambda>x. close_enough x word) possibilities)"]
  by (auto simp: get_close_matches_def Let_def filter_empty_conv)




lemma repl_attr_safe_count:
  "snd (repl_attr_safe make_relative basenames slug_map m n) =
     (if attr_rewritten make_relative basenames slug_map m then n + 1 else n)"
  by (simp add: repl_attr_safe_def attr_rewritten_def is_change_def Let_def split: option.splits)

lemma repl_css_count:
  "snd (repl_css make_relative basenames slug_map m n) =
     (if css_rewritten make_relative basenames slug_map m then n + 1 else n)"
  by (simp add: repl_css_def css_rewritten_def is_change_def Let_def split: option.splits)

lemma repl_attr_safe_same:
  "\<not> attr_rewritten make_relative basenames slug_map m \<Longrightarrow>
   fst (repl_attr_safe make_relative basenames slug_map m n) = am_group0 m"
  by (auto simp: repl_attr_safe_def attr_rewritten_def is_change_def Let_def split: option.splits)

lemma repl_css_same:
  "\<not> css_rewritten make_relative basenames slug_map m \<Longrightarrow>
   fst (repl_css make_relative basenames slug_map m n) = cm_group0 m"
  by (auto simp: repl_css_def css_rewritten_def is_change_def Let_def split: option.splits)

lemma sub_attr_count_gen:
  assumes "\<And>m n. snd (f m n) = (if P m then n + 1 else n)"
  shows "snd (sub_attr f html n) = n + length (filter P (finditer_attr html))"
  using assms
proof (induction f html n rule: sub_attr.induct)
  case (1 repl changed)
  show ?case by (simp add: sub_attr.simps finditer_attr.simps)
next
  case (2 repl c cs changed)
  show ?case
  proof (cases "match_attr (c # cs)")
    case None
    from "2.IH"(1) [OF None "2.prems"] None show ?thesis
      by (auto simp: sub_attr.simps finditer_attr.simps split: prod.splits)
  next
    case (Some p)
    obtain m rest where p: "p = (m, rest)" by (cases p)
    obtain r k where rk: "repl m changed = (r, k)"
      by (cases "repl m changed")
    have k: "k = (if P m then changed + 1 else changed)"
      using "2.prems" [of m changed] rk by simp
    from "2.IH"(2) [OF Some p [symmetric] rk [symmetric] "2.prems"]
    have "snd (sub_attr repl rest k) = k + length (filter P (finditer_attr rest))" .
    then show ?thesis
      using Some p rk k by (auto simp: sub_attr.simps finditer_attr.simps split: prod.splits)
  qed
qed

lemma sub_css_count_gen:
  assumes "\<And>m n. snd (f m n) = (if P m then n + 1 else n)"
  shows "snd (sub_css f html n) = n + length (filter P (finditer_css html))"
  using assms
proof (induction f html n rule: sub_css.induct)
  case (1 repl changed)
  show ?case by (simp add: sub_css.simps finditer_css.simps)
next
  case (2 repl c cs changed)
  show ?case
  proof (cases "match_css (c # cs)")
    case None
    from "2.IH"(1) [OF None "2.prems"] None show ?thesis
      by (auto simp: sub_css.simps finditer_css.simps split: prod.splits)
  next
    case (Some p)
    obtain m rest where p: "p = (m, rest)" by (cases p)
    obtain r k where rk: "repl m changed = (r, k)"
      by (cases "repl m changed")
    have k: "k = (if P m then changed + 1 else changed)"
      using "2.prems" [of m changed] rk by simp
    from "2.IH"(2) [OF Some p [symmetric] rk [symmetric] "2.prems"]
    have "snd (sub_css repl rest k) = k + length (filter P (finditer_css rest))" .
    then show ?thesis
      using Some p rk k by (auto simp: sub_css.simps finditer_css.simps split: prod.splits)
  qed
qed

lemma suffix_dropWhile_Cons:
  "dropWhile P xs = y # ys \<Longrightarrow> suffix ys xs"
  by (metis suffix_ConsD suffix_dropWhile)

lemma take_suffix_append:
  "suffix rest s \<Longrightarrow> take (length s - length rest) s @ rest = s"
  by (auto simp: suffix_def)

lemma match_attr_alt_split:
  assumes "match_attr_alt alt s = Some (m, rest)"
  shows "am_group0 m @ rest = s"
proof -
  from assms obtain r2 q r4 q' where
    a: "dropWhile is_space (drop (length alt) s) = CHR ''='' # r2"
    and b: "dropWhile is_space r2 = q # r4"
    and c: "dropWhile (\<lambda>c. \<not> is_quote c) r4 = q' # rest"
    and g: "am_group0 m = take (length s - length rest) s"
    by (auto simp: match_attr_alt_def Let_def split: if_splits list.splits)
  have "suffix rest r4" using suffix_dropWhile_Cons [OF c] .
  also have "suffix r4 r2" using suffix_dropWhile_Cons [OF b] .
  also have "suffix r2 (drop (length alt) s)" using suffix_dropWhile_Cons [OF a] .
  also have "suffix (drop (length alt) s) s" by (rule suffix_drop)
  finally show ?thesis by (simp add: g take_suffix_append)
qed

lemma match_attr_split:
  "match_attr s = Some (m, rest) \<Longrightarrow> am_group0 m @ rest = s"
  by (auto simp: match_attr_def split: option.splits dest: match_attr_alt_split)

lemma match_css_split:
  assumes "match_css s = Some (m, rest)"
  shows "cm_group0 m @ rest = s"
proof -
  have d: "suffix (dropWhile is_space (drop 4 s)) s"
    by (rule suffix_order.trans [OF suffix_dropWhile suffix_drop])
  from assms have g: "cm_group0 m = take (length s - length rest) s"
    by (auto simp: match_css_def Let_def split: if_splits list.splits)
  from assms consider
    (quoted) c r q' r2 p where "dropWhile is_space (drop 4 s) = c # r"
      "dropWhile css_val_char r = q' # r2" "dropWhile is_space r2 = p # rest"
    | (plain) c r p where "dropWhile is_space (drop 4 s) = c # r"
      "dropWhile css_val_char (c # r) = p # rest"
    | (blank) c where "dropWhile is_space (drop 4 s) = c # rest"
    by (auto simp: match_css_def Let_def split: if_splits list.splits)
  then have "suffix rest s"
  proof cases
    case quoted
    have "suffix rest r2" using suffix_dropWhile_Cons [OF quoted(3)] .
    also have "suffix r2 r" using suffix_dropWhile_Cons [OF quoted(2)] .
    also have "suffix r (dropWhile is_space (drop 4 s))" by (simp add: quoted(1) suffix_Cons)
    also note d
    finally show ?thesis .
  next
    case plain
    have "suffix rest (c # r)" using suffix_dropWhile_Cons [OF plain(2)] .
    also have "suffix (c # r) s" using d by (simp add: plain(1))
    finally show ?thesis .
  next
    case blank
    have "suffix rest (c # rest)" by (simp add: suffix_Cons)
    also have "suffix (c # rest) s" using d by (simp add: blank)
    finally show ?thesis .
  qed
  then show ?thesis by (simp add: g take_suffix_append)
qed

lemma sub_attr_same_gen:
  assumes "\<And>m n. \<not> P m \<Longrightarrow> fst (f m n) = am_group0 m"
    and "filter P (finditer_attr html) = []"
  shows "fst (sub_attr f html n) = html"
  using assms
proof (induction f html n rule: sub_attr.induct)
  case (1 repl changed)
  show ?case by (simp add: sub_attr.simps)
next
  case (2 repl c cs changed)
  show ?case
  proof (cases "match_attr (c # cs)")
    case None
    from "2.prems"(2) None have "filter P (finditer_attr cs) = []"
      by (simp add: finditer_attr.simps)
    from "2.IH"(1) [OF None "2.prems"(1) this] None show ?thesis
      by (auto simp: sub_attr.simps split: prod.splits)
  next
    case (Some p)
    obtain m rest where p: "p = (m, rest)" by (cases p)
    obtain r k where rk: "repl m changed = (r, k)"
      by (cases "repl m changed")
    from "2.prems"(2) Some p have np: "\<not> P m" and rest: "filter P (finditer_attr rest) = []"
      by (auto simp: finditer_attr.simps split: if_splits)
    have r: "r = am_group0 m"
      using "2.prems"(1) [OF np, of changed] rk by simp
    from "2.IH"(2) [OF Some p [symmetric] rk [symmetric] "2.prems"(1) rest]
    have "fst (sub_attr repl rest k) = rest" .
    then show ?thesis
      using Some p rk r match_attr_split [OF Some [unfolded p]]
      by (auto simp: sub_attr.simps split: prod.splits)
  qed
qed

lemma sub_css_same_gen:
  assumes "\<And>m n. \<not> P m \<Longrightarrow> fst (f m n) = cm_group0 m"
    and "filter P (finditer_css html) = []"
  shows "fst (sub_css f html n) = html"
  using assms
proof (induction f html n rule: sub_css.induct)
  case (1 repl changed)
  show ?case by (simp add: sub_css.simps)
next
  case (2 repl c cs changed)
  show ?case
  proof (cases "match_css (c # cs)")
    case None
    from "2.prems"(2) None have "filter P (finditer_css cs) = []"
      by (simp add: finditer_css.simps)
    from "2.IH"(1) [OF None "2.prems"(1) this] None show ?thesis
      by (auto simp: sub_css.simps split: prod.splits)
  next
    case (Some p)
    obtain m rest where p: "p = (m, rest)" by (cases p)
    obtain r k where rk: "repl m changed = (r, k)"
      by (cases "repl m changed")
    from "2.prems"(2) Some p have np: "\<not> P m" and rest: "filter P (finditer_css rest) = []"
      by (auto simp: finditer_css.simps split: if_splits)
    have r: "r = cm_group0 m"
      using "2.prems"(1) [OF np, of changed] rk by simp
    from "2.IH"(2) [OF Some p [symmetric] rk [symmetric] "2.prems"(1) rest]
    have "fst (sub_css repl rest k) = rest" .
    then show ?thesis
      using Some p rk r match_css_split [OF Some [unfolded p]]
      by (auto simp: sub_css.simps split: prod.splits)
  qed
qed

lemma maybe_fix_url_empty_catalog:
  "maybe_fix_url url {} [] web_root make_relative = None"
  by (simp add: maybe_fix_url_def fuzzy_match_def get_close_matches_def nlargest1_def Let_def
      split: option.splits)























section \<open>The claims\<close>

text \<open>
  C1. Idempotence of the link repair engine: a second run of \<open>process_html\<close>'s text
  transformation on the output of the first returns it unchanged with a change count of
  zero. The code does not keep this for a \<open>srcset\<close> value that names a catalog file whose
  name holds a space: \<open>fix_srcset\<close> splits each entry at whitespace, takes the part before
  the space as the URL, resolves it by fuzzy matching to the full file name and glues the
  rest of the name back on, so every run appends another copy of the tail and counts one
  change. The catalog is the one \<open>build_catalog\<close> gives for the single file
  \<open>images/ab c.jpg\<close>; the first text is already a correct reference to that file.
\<close>

theorem srcset_rerun_changes_again:
  \<open>build_catalog [''images/ab c.jpg'']
     = ([''images/ab c.jpg''], {''ab c.jpg''}, [(''ab-c'', ''ab c.jpg'')]) \<and>
   process_html_text False {''ab c.jpg''} [(''ab-c'', ''ab c.jpg'')]
       ''<img srcset="/images/ab c.jpg 1x">''
     = (''<img srcset="/images/ab c.jpg c.jpg 1x">'', 1) \<and>
   process_html_text False {''ab c.jpg''} [(''ab-c'', ''ab c.jpg'')]
       ''<img srcset="/images/ab c.jpg c.jpg 1x">''
     = (''<img srcset="/images/ab c.jpg c.jpg c.jpg 1x">'', 1)\<close>
  by code_simp

text \<open>
  C2. The extension-truncation step. The comment in \<open>maybe_fix_url\<close> says the step repairs
  names such as \<open>...jpgxresdefault.jpg\<close>, and the claim's example is
  \<open>thumbnail.jpgxresdefault.jpg\<close>. \<open>FIRST_EXT_RE\<close> ends in \<open>\b\<close>, so the first \<open>.jpg\<close>, which
  is followed by the letter \<open>x\<close>, is no match; the search goes on to the final \<open>.jpg\<close> and
  the "truncated" name is the whole name. The name then reaches the fuzzy step, and with
  \<open>thumbnailjpg.png\<close> beside \<open>thumbnail.jpg\<close> in the catalog the result is not
  \<open>images/thumbnail.jpg\<close>.
\<close>

theorem truncate_misses_glued_suffix:
  "truncate_after_first_ext ''thumbnail.jpgxresdefault.jpg'' = Some ''thumbnail.jpgxresdefault.jpg'' \<and>
   build_catalog [''images/thumbnail.jpg'', ''images/thumbnailjpg.png'']
     = ([''images/thumbnail.jpg'', ''images/thumbnailjpg.png''],
        {''thumbnail.jpg'', ''thumbnailjpg.png''},
        [(''thumbnail'', ''thumbnail.jpg''), (''thumbnailjpg'', ''thumbnailjpg.png'')]) \<and>
   maybe_fix_url ''thumbnail.jpgxresdefault.jpg'' {''thumbnail.jpg'', ''thumbnailjpg.png''}
       [(''thumbnail'', ''thumbnail.jpg''), (''thumbnailjpg'', ''thumbnailjpg.png'')]
       (images_web_root True) True
     = Some ''images/thumbnailjpg.png''"
  by code_simp

text \<open>
  C3, as stated, fails for \<open>src\<close>: the value \<open>foo\<close> would resolve to \<open>/images/foo.jpg\<close>, but
  as a \<open>src\<close> value it is filtered out and left alone, while the same value in \<open>srcset\<close> is
  rewritten.
\<close>

theorem src_is_filtered_too:
  \<open>maybe_fix_url ''foo'' {''foo.jpg''} [(''foo'', ''foo.jpg'')] (images_web_root False) False
     = Some ''/images/foo.jpg'' \<and>
   process_html_text False {''foo.jpg''} [(''foo'', ''foo.jpg'')] ''<img src="foo">''
     = (''<img src="foo">'', 0) \<and>
   process_html_text False {''foo.jpg''} [(''foo'', ''foo.jpg'')] ''<img srcset="foo">''
     = (''<img srcset="/images/foo.jpg">'', 1)\<close>
  by code_simp

text \<open>
  C3 (amended). Every attribute match has the attribute \<open>src\<close>, \<open>srcset\<close> or \<open>href\<close> (in
  any letter case). A \<open>src\<close> or \<open>href\<close> value and a CSS \<open>url()\<close> value is passed to
  \<open>maybe_fix_url\<close> only if it contains \<open>/images/\<close> or, lower-cased, ends in one of the
  allowed extensions; otherwise the match is returned as it stands and nothing is counted.
  A \<open>srcset\<close> value always goes through \<open>fix_srcset\<close>.
\<close>

theorem eligibility_filter:
  "(lower (am_attr m) \<noteq> ''srcset'' \<and> \<not> eligible (am_val m) \<longrightarrow>
      repl_attr_safe make_relative basenames slug_map m n = (am_group0 m, n)) \<and>
   (lower (am_attr m) \<noteq> ''srcset'' \<and> eligible (am_val m) \<longrightarrow>
      repl_attr_safe make_relative basenames slug_map m n =
        (case maybe_fix_url (am_val m) basenames slug_map (images_web_root make_relative) make_relative of
           None \<Rightarrow> (am_group0 m, n)
         | Some v \<Rightarrow>
             if v \<noteq> am_val m then (am_attr m @ ''='' @ [quote_of m] @ v @ [quote_of m], n + 1)
             else (am_group0 m, n))) \<and>
   (lower (am_attr m) = ''srcset'' \<longrightarrow>
      repl_attr_safe make_relative basenames slug_map m n =
        (let v = fix_srcset (am_val m) basenames slug_map (images_web_root make_relative) make_relative
         in if v \<noteq> [] \<and> v \<noteq> am_val m
            then (am_attr m @ ''='' @ [quote_of m] @ v @ [quote_of m], n + 1)
            else (am_group0 m, n))) \<and>
   (\<not> eligible (cm_val c) \<longrightarrow>
      repl_css make_relative basenames slug_map c n = (cm_group0 c, n)) \<and>
   (eligible (cm_val c) \<longrightarrow>
      repl_css make_relative basenames slug_map c n =
        (case maybe_fix_url (cm_val c) basenames slug_map (images_web_root make_relative) make_relative of
           None \<Rightarrow> (cm_group0 c, n)
         | Some v \<Rightarrow>
             if v \<noteq> cm_val c then (''url('' @ [dquote] @ v @ [dquote] @ '')'', n + 1)
             else (cm_group0 c, n))) \<and>
   (match_attr s = Some (m', rest) \<longrightarrow> lower (am_attr m') \<in> {''src'', ''srcset'', ''href''}) \<and>
   (eligible val \<longleftrightarrow>
      contains val ''/images/'' \<or> endswith (lower val) ''.jpg'' \<or> endswith (lower val) ''.jpeg''
      \<or> endswith (lower val) ''.png'' \<or> endswith (lower val) ''.webp''
      \<or> endswith (lower val) ''.gif'' \<or> endswith (lower val) ''.svg''
      \<or> endswith (lower val) ''.avif'')"
proof -
  have nz: "\<And>v u. maybe_fix_url u basenames slug_map (images_web_root make_relative) make_relative
      = Some v \<Longrightarrow> v \<noteq> []"
    using maybe_fix_url_nonempty by metis
  have a: "lower (am_attr m) \<noteq> ''srcset'' \<and> \<not> eligible (am_val m) \<longrightarrow>
      repl_attr_safe make_relative basenames slug_map m n = (am_group0 m, n)"
    by (simp add: repl_attr_safe_def new_val_attr_def Let_def)
  have b: "lower (am_attr m) \<noteq> ''srcset'' \<and> eligible (am_val m) \<longrightarrow>
      repl_attr_safe make_relative basenames slug_map m n =
        (case maybe_fix_url (am_val m) basenames slug_map (images_web_root make_relative) make_relative of
           None \<Rightarrow> (am_group0 m, n)
         | Some v \<Rightarrow>
             if v \<noteq> am_val m then (am_attr m @ ''='' @ [quote_of m] @ v @ [quote_of m], n + 1)
             else (am_group0 m, n))"
    by (auto simp: repl_attr_safe_def new_val_attr_def Let_def split: option.splits dest: nz)
  have c: "lower (am_attr m) = ''srcset'' \<longrightarrow>
      repl_attr_safe make_relative basenames slug_map m n =
        (let v = fix_srcset (am_val m) basenames slug_map (images_web_root make_relative) make_relative
         in if v \<noteq> [] \<and> v \<noteq> am_val m
            then (am_attr m @ ''='' @ [quote_of m] @ v @ [quote_of m], n + 1)
            else (am_group0 m, n))"
    by (simp add: repl_attr_safe_def new_val_attr_def Let_def)
  have d: "\<not> eligible (cm_val c) \<longrightarrow>
      repl_css make_relative basenames slug_map c n = (cm_group0 c, n)"
    by (simp add: repl_css_def new_val_css_def Let_def)
  have e: "eligible (cm_val c) \<longrightarrow>
      repl_css make_relative basenames slug_map c n =
        (case maybe_fix_url (cm_val c) basenames slug_map (images_web_root make_relative) make_relative of
           None \<Rightarrow> (cm_group0 c, n)
         | Some v \<Rightarrow>
             if v \<noteq> cm_val c then (''url('' @ [dquote] @ v @ [dquote] @ '')'', n + 1)
             else (cm_group0 c, n))"
    by (auto simp: repl_css_def new_val_css_def Let_def split: option.splits dest: nz)
  have f: "match_attr s = Some (m', rest) \<longrightarrow> lower (am_attr m') \<in> {''src'', ''srcset'', ''href''}"
    using match_attr_attr by blast
  have g: "eligible val \<longleftrightarrow>
      contains val ''/images/'' \<or> endswith (lower val) ''.jpg'' \<or> endswith (lower val) ''.jpeg''
      \<or> endswith (lower val) ''.png'' \<or> endswith (lower val) ''.webp''
      \<or> endswith (lower val) ''.gif'' \<or> endswith (lower val) ''.svg''
      \<or> endswith (lower val) ''.avif''"
    by (simp add: eligible_def VALID_EXTS_def)
  from a b c d e f g show ?thesis by blast
qed

theorem eligibility_filter_witness:
  \<open>lower ''href'' \<noteq> ''srcset'' \<and> \<not> eligible ''about.html'' \<and>
   repl_attr_safe False {''a.jpg''} [(''a'', ''a.jpg'')]
       \<lparr>am_group0 = ''href="about.html"'', am_attr = ''href'', am_val = ''about.html''\<rparr> 0
     = (''href="about.html"'', 0) \<and>
   lower ''SRC'' \<noteq> ''srcset'' \<and> eligible ''x/a.jpg'' \<and>
   repl_attr_safe False {''a.jpg''} [(''a'', ''a.jpg'')]
       \<lparr>am_group0 = ''SRC = "x/a.jpg"'', am_attr = ''SRC'', am_val = ''x/a.jpg''\<rparr> 0
     = (''SRC="/images/a.jpg"'', 1) \<and>
   lower ''srcset'' = ''srcset'' \<and>
   repl_attr_safe False {''a.jpg''} [(''a'', ''a.jpg'')]
       \<lparr>am_group0 = ''srcset="about.html 1x"'', am_attr = ''srcset'', am_val = ''about.html 1x''\<rparr> 0
     = (''srcset="about.html 1x"'', 0) \<and>
   \<not> eligible ''font.woff'' \<and>
   repl_css False {''a.jpg''} [(''a'', ''a.jpg'')]
       \<lparr>cm_group0 = ''url(font.woff)'', cm_val = ''font.woff''\<rparr> 0
     = (''url(font.woff)'', 0) \<and>
   repl_css False {''a.jpg''} [(''a'', ''a.jpg'')]
       \<lparr>cm_group0 = ''url(x/a.jpg)'', cm_val = ''x/a.jpg''\<rparr> 0
     = (''url("/images/a.jpg")'', 1) \<and>
   match_attr ''SRC = "x/a.jpg">''
     = Some (\<lparr>am_group0 = ''SRC = "x/a.jpg"'', am_attr = ''SRC'', am_val = ''x/a.jpg''\<rparr>, ''>'') \<and>
   lower ''SRC'' \<in> {''src'', ''srcset'', ''href''}\<close>
proof -
  have h1: "lower ''href'' \<noteq> ''srcset''" "\<not> eligible ''about.html''"
    "lower ''SRC'' \<noteq> ''srcset''" "eligible ''x/a.jpg''" "lower ''srcset'' = ''srcset''"
    "\<not> eligible ''font.woff''"
    by code_simp+
  have h2: \<open>match_attr ''SRC = "x/a.jpg">''
     = Some (\<lparr>am_group0 = ''SRC = "x/a.jpg"'', am_attr = ''SRC'', am_val = ''x/a.jpg''\<rparr>, ''>'')\<close>
    by code_simp
  have v1: "maybe_fix_url ''x/a.jpg'' {''a.jpg''} [(''a'', ''a.jpg'')] (images_web_root False) False
      = Some ''/images/a.jpg''"
    by code_simp
  have v2: "fix_srcset ''about.html 1x'' {''a.jpg''} [(''a'', ''a.jpg'')] (images_web_root False) False
      = ''about.html 1x''"
    by code_simp
  have q: \<open>quote_of \<lparr>am_group0 = ''SRC = "x/a.jpg"'', am_attr = ''SRC'', am_val = ''x/a.jpg''\<rparr> = dquote\<close>
    by code_simp
  show ?thesis
    using
      eligibility_filter [where m = \<open>\<lparr>am_group0 = ''href="about.html"'', am_attr = ''href'',
          am_val = ''about.html''\<rparr>\<close> and make_relative = False and basenames = "{''a.jpg''}"
          and slug_map = "[(''a'', ''a.jpg'')]" and n = 0
          and c = \<open>\<lparr>cm_group0 = ''url(font.woff)'', cm_val = ''font.woff''\<rparr>\<close>
          and s = \<open>''SRC = "x/a.jpg">''\<close>
          and m' = \<open>\<lparr>am_group0 = ''SRC = "x/a.jpg"'', am_attr = ''SRC'', am_val = ''x/a.jpg''\<rparr>\<close>
          and rest = "''>''" and val = "[]"]
      eligibility_filter [where m = \<open>\<lparr>am_group0 = ''SRC = "x/a.jpg"'', am_attr = ''SRC'',
          am_val = ''x/a.jpg''\<rparr>\<close> and make_relative = False and basenames = "{''a.jpg''}"
          and slug_map = "[(''a'', ''a.jpg'')]" and n = 0
          and c = \<open>\<lparr>cm_group0 = ''url(x/a.jpg)'', cm_val = ''x/a.jpg''\<rparr>\<close>
          and s = "[]" and m' = "\<lparr>am_group0 = [], am_attr = [], am_val = []\<rparr>" and rest = "[]"
          and val = "[]"]
      eligibility_filter [where m = \<open>\<lparr>am_group0 = ''srcset="about.html 1x"'', am_attr = ''srcset'',
          am_val = ''about.html 1x''\<rparr>\<close> and make_relative = False and basenames = "{''a.jpg''}"
          and slug_map = "[(''a'', ''a.jpg'')]" and n = 0
          and c = "\<lparr>cm_group0 = [], cm_val = []\<rparr>"
          and s = "[]" and m' = "\<lparr>am_group0 = [], am_attr = [], am_val = []\<rparr>" and rest = "[]"
          and val = "[]"]
      h1 h2 v1 v2 q
    by (simp add: dquote_def)
qed






text \<open>
  C6, as stated, fails for \<open>srcset\<close>. With an empty catalog no URL can be repaired, yet a
  \<open>srcset\<close> value with two spaces between its tokens is rewritten with one and counted;
  and a \<open>srcset\<close> value with two entries, both repaired, counts one change, not two.
\<close>

theorem count_is_per_attribute:
  \<open>(\<forall>url. maybe_fix_url url {} [] (images_web_root False) False = None) \<and>
   process_html_text False {} [] ''<img srcset="a.jpg  1x">'' = (''<img srcset="a.jpg 1x">'', 1) \<and>
   process_html_text False {''a.jpg'', ''b.jpg''} [(''a'', ''a.jpg''), (''b'', ''b.jpg'')]
       ''<img srcset="x/a.jpg 1x, x/b.jpg 2x">''
     = (''<img srcset="/images/a.jpg 1x, /images/b.jpg 2x">'', 1)\<close>
proof -
  have a: \<open>process_html_text False {} [] ''<img srcset="a.jpg  1x">'' = (''<img srcset="a.jpg 1x">'', 1)\<close>
    by code_simp
  have b: \<open>process_html_text False {''a.jpg'', ''b.jpg''} [(''a'', ''a.jpg''), (''b'', ''b.jpg'')]
       ''<img srcset="x/a.jpg 1x, x/b.jpg 2x">''
     = (''<img srcset="/images/a.jpg 1x, /images/b.jpg 2x">'', 1)\<close>
    by code_simp
  from a b maybe_fix_url_empty_catalog show ?thesis by simp
qed

text \<open>
  C6 (amended). The change count \<open>process_html\<close> returns is the number of attribute matches
  plus the number of \<open>url()\<close> matches (found in the text the attribute pass produced) for
  which the engine computed a new value that is non-empty and differs from the old one;
  each such match adds exactly one and no other match adds anything. A \<open>srcset\<close>
  attribute is one match whatever the number of its entries. When the count is zero the
  text is returned unchanged.
\<close>

theorem change_count:
  "snd (process_html_text make_relative basenames slug_map html) =
     length (filter (attr_rewritten make_relative basenames slug_map) (finditer_attr html)) +
     length (filter (css_rewritten make_relative basenames slug_map)
       (finditer_css (fst (sub_attr (repl_attr_safe make_relative basenames slug_map) html 0)))) \<and>
   (snd (process_html_text make_relative basenames slug_map html) = 0 \<longrightarrow>
      fst (process_html_text make_relative basenames slug_map html) = html)"
proof -
  obtain t k where a: "sub_attr (repl_attr_safe make_relative basenames slug_map) html 0 = (t, k)"
    by (cases "sub_attr (repl_attr_safe make_relative basenames slug_map) html 0")
  have k: "k = 0 + length (filter (attr_rewritten make_relative basenames slug_map) (finditer_attr html))"
    using sub_attr_count_gen [of "repl_attr_safe make_relative basenames slug_map"
        "attr_rewritten make_relative basenames slug_map" html 0, OF repl_attr_safe_count] a
    by simp
  have c: "snd (sub_css (repl_css make_relative basenames slug_map) t k) =
      k + length (filter (css_rewritten make_relative basenames slug_map) (finditer_css t))"
    by (rule sub_css_count_gen [OF repl_css_count])
  have count: "snd (process_html_text make_relative basenames slug_map html) =
     length (filter (attr_rewritten make_relative basenames slug_map) (finditer_attr html)) +
     length (filter (css_rewritten make_relative basenames slug_map)
       (finditer_css (fst (sub_attr (repl_attr_safe make_relative basenames slug_map) html 0))))"
    using k c by (simp add: process_html_text_def a)
  have same: "fst (process_html_text make_relative basenames slug_map html) = html"
    if z: "snd (process_html_text make_relative basenames slug_map html) = 0"
  proof -
    from z count a have
      fa: "filter (attr_rewritten make_relative basenames slug_map) (finditer_attr html) = []"
      and fc: "filter (css_rewritten make_relative basenames slug_map) (finditer_css t) = []"
      by simp_all
    have "fst (sub_attr (repl_attr_safe make_relative basenames slug_map) html 0) = html"
      by (rule sub_attr_same_gen [OF repl_attr_safe_same fa])
    with a have t: "t = html" by simp
    have "fst (sub_css (repl_css make_relative basenames slug_map) t k) = t"
      by (rule sub_css_same_gen [OF repl_css_same fc])
    then show ?thesis by (simp add: process_html_text_def a t)
  qed
  from count same show ?thesis by blast
qed

theorem change_count_witness:
  \<open>process_html_text False {''a.jpg''} [(''a'', ''a.jpg'')]
       ''<img src="x/a.jpg" style="background:url(y/a.jpg)"><a href="a.html">''
     = (''<img src="/images/a.jpg" style="background:url("/images/a.jpg")"><a href="a.html">'', 2) \<and>
   length (filter (attr_rewritten False {''a.jpg''} [(''a'', ''a.jpg'')])
     (finditer_attr ''<img src="x/a.jpg" style="background:url(y/a.jpg)"><a href="a.html">'')) = 1 \<and>
   length (filter (css_rewritten False {''a.jpg''} [(''a'', ''a.jpg'')])
     (finditer_css (fst (sub_attr (repl_attr_safe False {''a.jpg''} [(''a'', ''a.jpg'')])
        ''<img src="x/a.jpg" style="background:url(y/a.jpg)"><a href="a.html">'' 0)))) = 1 \<and>
   snd (process_html_text False {''a.jpg''} [(''a'', ''a.jpg'')] ''<a href="a.html">'') = 0 \<and>
   fst (process_html_text False {''a.jpg''} [(''a'', ''a.jpg'')] ''<a href="a.html">'')
     = ''<a href="a.html">''\<close>
proof -
  have e: \<open>process_html_text False {''a.jpg''} [(''a'', ''a.jpg'')]
       ''<img src="x/a.jpg" style="background:url(y/a.jpg)"><a href="a.html">''
     = (''<img src="/images/a.jpg" style="background:url("/images/a.jpg")"><a href="a.html">'', 2)\<close>
    by code_simp
  have f: \<open>length (filter (attr_rewritten False {''a.jpg''} [(''a'', ''a.jpg'')])
     (finditer_attr ''<img src="x/a.jpg" style="background:url(y/a.jpg)"><a href="a.html">'')) = 1\<close>
    by code_simp
  have z: \<open>snd (process_html_text False {''a.jpg''} [(''a'', ''a.jpg'')] ''<a href="a.html">'') = 0\<close>
    by code_simp
  show ?thesis
    using
      change_count [where make_relative = False and basenames = "{''a.jpg''}"
        and slug_map = "[(''a'', ''a.jpg'')]"
        and html = \<open>''<img src="x/a.jpg" style="background:url(y/a.jpg)"><a href="a.html">''\<close>]
      change_count [where make_relative = False and basenames = "{''a.jpg''}"
        and slug_map = "[(''a'', ''a.jpg'')]" and html = \<open>''<a href="a.html">''\<close>]
      e f z
    by simp
qed

text \<open>
  C7. Every value \<open>maybe_fix_url\<close> returns, called with the prefix \<open>process_html\<close> passes,
  begins with that prefix: with \<open>make_relative\<close> it begins with \<open>images/\<close> and not with
  \<open>/\<close>; without it, it begins with \<open>/images/\<close>, hence with \<open>/\<close>.
\<close>

theorem maybe_fix_url_prefix:
  assumes "maybe_fix_url url basenames slug_map (images_web_root make_relative) make_relative = Some v"
  shows "(make_relative \<longrightarrow> startswith v ''images/'' \<and> \<not> startswith v ''/'') \<and>
         (\<not> make_relative \<longrightarrow> startswith v ''/images/'' \<and> startswith v ''/'')"
proof -
  from maybe_fix_url_Some [OF assms] obtain name where "v = images_web_root make_relative @ name"
    by blast
  then show ?thesis
    by (simp add: images_web_root_def startswith_def)
qed

theorem maybe_fix_url_prefix_witness:
  "maybe_fix_url ''photos/a.jpg?v=2'' {''a.jpg''} [(''a'', ''a.jpg'')] (images_web_root True) True
     = Some ''images/a.jpg'' \<and>
   startswith ''images/a.jpg'' ''images/'' \<and> \<not> startswith ''images/a.jpg'' ''/'' \<and>
   maybe_fix_url ''photos/a.jpg?v=2'' {''a.jpg''} [(''a'', ''a.jpg'')] (images_web_root False) False
     = Some ''/images/a.jpg'' \<and>
   startswith ''/images/a.jpg'' ''/images/'' \<and> startswith ''/images/a.jpg'' ''/''"
proof -
  have t: "maybe_fix_url ''photos/a.jpg?v=2'' {''a.jpg''} [(''a'', ''a.jpg'')] (images_web_root True) True
     = Some ''images/a.jpg''"
    by code_simp
  have f: "maybe_fix_url ''photos/a.jpg?v=2'' {''a.jpg''} [(''a'', ''a.jpg'')] (images_web_root False) False
     = Some ''/images/a.jpg''"
    by code_simp
  show ?thesis
    using maybe_fix_url_prefix [OF t] maybe_fix_url_prefix [OF f] t f by simp
qed









end
